theory Spec2Isabelle
  imports
    Complex_Main
    "HOL-Library.AList"
    "HOL-Library.Multiset"
    "HOL-Library.Product_Lexorder"
begin

section \<open>Book club voting: the pipeline of \<open>main.py\<close>\<close>

text \<open>
  The program loads ranked book preferences, enumerates every non-empty combination of
  titles, scores each combination, drops the combinations without quorum and sorts the
  rest. Each function of \<open>main.py\<close> is embedded below under its own name (a leading
  underscore is dropped, since an Isabelle name cannot start with one).

  Conventions of the embedding:
  \<^item> Python's unbounded \<open>int\<close> is \<open>int\<close>; \<open>len\<close> and list positions are \<open>nat\<close>.
  \<^item> A Python \<open>float\<close> is read as the real number it approximates: rounding, overflow
    and underflow of IEEE doubles are outside the model. The theorems therefore assert
    no exact value of a stored statistic; they concern the supporter mapping, the
    exceptions raised, and the order of the summaries.
  \<^item> An exception is a value \<open>Inl e\<close> of the result type \<open>error + 'a\<close>.
  \<^item> A \<open>dict\<close> is an association list in insertion order;
    \<open>AList.update\<close> overwrites a present key in place and appends an absent one, as
    assignment to a \<open>dict\<close> entry does.
  \<^item> A string is a list of characters with codes below 256.
\<close>

subsection \<open>Configuration constants\<close>

definition MIN_GROUP_SIZE :: int where
  "MIN_GROUP_SIZE = 3"

definition FIRST_NAME_COLUMN_IDX :: nat where
  "FIRST_NAME_COLUMN_IDX = 3"

definition LAST_NAME_COLUMN_IDX :: nat where
  "LAST_NAME_COLUMN_IDX = 4"

definition BOOK_PREFS_COLUMN_IDX :: nat where
  "BOOK_PREFS_COLUMN_IDX = 6"

subsection \<open>Exceptions\<close>

datatype error =
    ValueError string
  | ZeroDivisionError
  | KeyError string
  | IndexError
  | StopIteration

subsection \<open>UserPreference\<close>

record UserPreference =
  first_name :: string
  last_name :: string
  books_by_preference :: "string list"

text \<open>
  \<open>get_rank_of_book\<close>: the loop \<open>for rank, b in enumerate(self.books_by_preference)\<close>
  returns \<open>rank + 1\<close> at the first \<open>b == book\<close>; falling out of the loop raises
  \<open>ValueError\<close>. The first argument of the loop function is the counter of \<open>enumerate\<close>.
\<close>

fun get_rank_loop :: "int \<Rightarrow> string list \<Rightarrow> string \<Rightarrow> error + int" where
  "get_rank_loop rank [] book =
     Inl (ValueError (''Book '' @ book @ '' not found in user preferences''))"
| "get_rank_loop rank (b # bs) book =
     (if b = book then Inr (rank + 1) else get_rank_loop (rank + 1) bs book)"

definition get_rank_of_book :: "UserPreference \<Rightarrow> string \<Rightarrow> error + int" where
  "get_rank_of_book self book = get_rank_loop 0 (books_by_preference self) book"

subsection \<open>Built-ins of Python used by the program\<close>

text \<open>
  \<open>xs[i]\<close> for a non-negative constant index: \<open>IndexError\<close> when the index is out of
  range.
\<close>

definition getitem :: "'a list \<Rightarrow> nat \<Rightarrow> error + 'a" where
  "getitem xs i = (if i < length xs then Inr (xs ! i) else Inl IndexError)"

text \<open>
  \<open>str.split(sep)\<close> for a one-character separator: the pieces between the separators,
  empty pieces kept; the empty string gives one empty piece.
\<close>

fun str_split :: "char \<Rightarrow> string \<Rightarrow> string list" where
  "str_split sep [] = [[]]"
| "str_split sep (c # cs) =
     (if c = sep then [] # str_split sep cs
      else (case str_split sep cs of [] \<Rightarrow> [[c]] | t # ts \<Rightarrow> (c # t) # ts))"

text \<open>
  \<open>str.isspace\<close> on the characters with codes below 256, and \<open>str.strip()\<close>, which
  removes the whitespace characters at both ends.
\<close>

definition isspace :: "char \<Rightarrow> bool" where
  "isspace c = (of_char c \<in> {9, 10, 11, 12, 13, 28, 29, 30, 31, 32, 133, 160 :: nat})"

definition str_strip :: "string \<Rightarrow> string" where
  "str_strip s = rev (dropWhile isspace (rev (dropWhile isspace s)))"

text \<open>
  A Python \<open>set\<close> is a list without duplicates, in the order in which the interpreter
  iterates it. The model iterates in insertion order; CPython's order depends on the
  hashes of the elements. The properties proved below do not depend on that order.
  \<open>set_add\<close> is \<open>set.add\<close>, \<open>set_update\<close> is \<open>set.update(iterable)\<close> and
  \<open>set_of\<close> is \<open>set(iterable)\<close>.
\<close>

definition set_add :: "'a list \<Rightarrow> 'a \<Rightarrow> 'a list" where
  "set_add s x = (if x \<in> set s then s else s @ [x])"

definition set_update :: "'a list \<Rightarrow> 'a list \<Rightarrow> 'a list" where
  "set_update s xs = fold (\<lambda>x acc. set_add acc x) xs s"

definition set_of :: "'a list \<Rightarrow> 'a list" where
  "set_of xs = set_update [] xs"

text \<open>
  \<open>itertools.combinations(iterable, r)\<close>: the subsequences of length \<open>r\<close>, as tuples, in
  lexicographic order of the positions.
\<close>

fun combinations :: "'a list \<Rightarrow> nat \<Rightarrow> 'a list list" where
  "combinations xs 0 = [[]]"
| "combinations [] (Suc r) = []"
| "combinations (x # xs) (Suc r) =
     map ((#) x) (combinations xs r) @ combinations xs (Suc r)"

subsection \<open>Loading\<close>

text \<open>
  \<open>UserPreference.from_csv_row\<close>: the preference cell is read first, split on commas, and
  each piece stripped; then the two name cells are read.
\<close>

definition from_csv_row :: "string list \<Rightarrow> error + UserPreference" where
  "from_csv_row row =
     (case getitem row BOOK_PREFS_COLUMN_IDX of
        Inl e \<Rightarrow> Inl e
      | Inr cell \<Rightarrow>
          (let books_raw = str_split CHR '','' cell;
               books_cleaned = map str_strip books_raw
           in case getitem row FIRST_NAME_COLUMN_IDX of
                Inl e \<Rightarrow> Inl e
              | Inr fname \<Rightarrow>
                  (case getitem row LAST_NAME_COLUMN_IDX of
                     Inl e \<Rightarrow> Inl e
                   | Inr lname \<Rightarrow>
                       Inr \<lparr>first_name = fname, last_name = lname,
                            books_by_preference = books_cleaned\<rparr>)))"

text \<open>
  \<open>_load_csv\<close>. The argument is the sequence of rows that \<open>csv.reader\<close> yields for the
  file (parsing the file format is not part of the model). \<open>next(reader)\<close> discards the
  header row and raises \<open>StopIteration\<close> when there is none; \<open>load_rows\<close> is the list
  comprehension over the remaining rows, which stops at the first row that raises.
\<close>

fun load_rows :: "string list list \<Rightarrow> error + UserPreference list" where
  "load_rows [] = Inr []"
| "load_rows (row # rows) =
     (case from_csv_row row of
        Inl e \<Rightarrow> Inl e
      | Inr u \<Rightarrow> (case load_rows rows of Inl e \<Rightarrow> Inl e | Inr us \<Rightarrow> Inr (u # us)))"

definition load_csv :: "string list list \<Rightarrow> error + UserPreference list" where
  "load_csv reader = (case reader of [] \<Rightarrow> Inl StopIteration | header # rows \<Rightarrow> load_rows rows)"

subsection \<open>Title universe and combinations\<close>

definition get_all_book_titles :: "UserPreference list \<Rightarrow> string list" where
  "get_all_book_titles user_prefs =
     fold (\<lambda>user_pref books. set_update books (books_by_preference user_pref)) user_prefs []"

text \<open>
  \<open>_combinations_for_all_book_counts\<close>: for \<open>i\<close> in \<open>range(1, len(books) + 1)\<close> the list
  is extended by \<open>set(itertools.combinations(books, i))\<close>. A combination is a tuple of
  titles, here a list.
\<close>

definition combinations_for_all_book_counts :: "string list \<Rightarrow> string list list" where
  "combinations_for_all_book_counts books =
     fold (\<lambda>i book_combinations. book_combinations @ set_of (combinations books i))
       [1 ..< length books + 1] []"

subsection \<open>ComboSummary\<close>

record ComboSummary =
  books :: "string list"
  book_to_user_pref :: "(string \<times> UserPreference list) list"
  avg_score :: real
  harmonic_mean :: real
  root_mean_square :: real

text \<open>
  \<open>__post_init__\<close>. The state of the two nested loops is the tuple
  (\<open>avg_running_sum\<close>, \<open>harmonic_running_sum\<close>, \<open>squared_running_sum\<close>, \<open>score_count\<close>).
  \<open>score_users\<close> is the inner loop over the supporters of one book, \<open>score_items\<close> the
  outer loop over \<open>book_to_user_pref.items()\<close>. A division raises
  \<open>ZeroDivisionError\<close> when its divisor is zero. \<open>post_init books d\<close> is the constructor
  call \<open>ComboSummary(books, d)\<close>: the generated \<open>__init__\<close> stores the two fields and runs
  \<open>__post_init__\<close>. The power \<open>** 0.5\<close> is \<open>powr (1/2)\<close>.
\<close>

fun score_users ::
  "string \<Rightarrow> UserPreference list \<Rightarrow> int \<times> real \<times> int \<times> int \<Rightarrow> error + (int \<times> real \<times> int \<times> int)"
where
  "score_users book [] acc = Inr acc"
| "score_users book (user_pref # user_prefs) (a, h, q, n) =
     (case get_rank_of_book user_pref book of
        Inl e \<Rightarrow> Inl e
      | Inr user_score \<Rightarrow>
          if user_score = 0 then Inl ZeroDivisionError
          else score_users book user_prefs
                 (a + user_score, h + 1 / real_of_int user_score, q + user_score ^ 2, n + 1))"

fun score_items ::
  "(string \<times> UserPreference list) list \<Rightarrow> int \<times> real \<times> int \<times> int
     \<Rightarrow> error + (int \<times> real \<times> int \<times> int)"
where
  "score_items [] acc = Inr acc"
| "score_items ((book, user_prefs) # items) acc =
     (case score_users book user_prefs acc of
        Inl e \<Rightarrow> Inl e
      | Inr acc' \<Rightarrow> score_items items acc')"

definition post_init ::
  "string list \<Rightarrow> (string \<times> UserPreference list) list \<Rightarrow> error + ComboSummary"
where
  "post_init bks d =
     (case score_items d (0, 0, 0, 0) of
        Inl e \<Rightarrow> Inl e
      | Inr (avg_running_sum, harmonic_running_sum, squared_running_sum, score_count) \<Rightarrow>
          if score_count = 0 then Inl ZeroDivisionError
          else if harmonic_running_sum = 0 then Inl ZeroDivisionError
          else Inr \<lparr>books = bks, book_to_user_pref = d,
                    avg_score = real_of_int avg_running_sum / real_of_int score_count,
                    harmonic_mean = real_of_int score_count / harmonic_running_sum,
                    root_mean_square =
                      (real_of_int squared_running_sum / real_of_int score_count) powr (1 / 2)\<rparr>)"

text \<open>
  \<open>from_books_and_user_prefs\<close>. \<open>empty_supporters\<close> is the comprehension
  \<open>{book: [] for book in books}\<close>. \<open>assign_user\<close> is the inner loop over one record's
  ranked list, which appends the record to the list of the first preferred book that is
  in \<open>books\<close> and then breaks; reading \<open>book_to_user_pref[preferred_book]\<close> raises
  \<open>KeyError\<close> for a missing key. \<open>assign_users\<close> is the outer loop over the records.
\<close>

definition empty_supporters :: "string list \<Rightarrow> (string \<times> UserPreference list) list" where
  "empty_supporters bks = fold (\<lambda>book d. AList.update book [] d) bks []"

fun assign_user ::
  "string list \<Rightarrow> UserPreference \<Rightarrow> string list \<Rightarrow> (string \<times> UserPreference list) list
     \<Rightarrow> error + (string \<times> UserPreference list) list"
where
  "assign_user bks user_pref [] d = Inr d"
| "assign_user bks user_pref (preferred_book # rest) d =
     (if preferred_book \<in> set bks then
        (case map_of d preferred_book of
           None \<Rightarrow> Inl (KeyError preferred_book)
         | Some supporters \<Rightarrow> Inr (AList.update preferred_book (supporters @ [user_pref]) d))
      else assign_user bks user_pref rest d)"

fun assign_users ::
  "string list \<Rightarrow> UserPreference list \<Rightarrow> (string \<times> UserPreference list) list
     \<Rightarrow> error + (string \<times> UserPreference list) list"
where
  "assign_users bks [] d = Inr d"
| "assign_users bks (user_pref # user_prefs) d =
     (case assign_user bks user_pref (books_by_preference user_pref) d of
        Inl e \<Rightarrow> Inl e
      | Inr d' \<Rightarrow> assign_users bks user_prefs d')"

definition from_books_and_user_prefs ::
  "string list \<Rightarrow> UserPreference list \<Rightarrow> error + ComboSummary"
where
  "from_books_and_user_prefs bks user_prefs =
     (case assign_users bks user_prefs (empty_supporters bks) of
        Inl e \<Rightarrow> Inl e
      | Inr d \<Rightarrow> post_init bks d)"

subsection \<open>Scoring every combination, quorum filter, ranking\<close>

text \<open>
  \<open>generate_combo_summaries\<close>: one summary per combination, in order; the first
  combination whose construction raises ends the run.
\<close>

fun generate_combo_summaries ::
  "UserPreference list \<Rightarrow> string list list \<Rightarrow> error + ComboSummary list"
where
  "generate_combo_summaries user_prefs [] = Inr []"
| "generate_combo_summaries user_prefs (combo # book_combos) =
     (case from_books_and_user_prefs combo user_prefs of
        Inl e \<Rightarrow> Inl e
      | Inr combo_summary \<Rightarrow>
          (case generate_combo_summaries user_prefs book_combos of
             Inl e \<Rightarrow> Inl e
           | Inr combo_summaries \<Rightarrow> Inr (combo_summary # combo_summaries)))"

text \<open>
  \<open>filter_invalid_summaries\<close>. \<open>filter_loop\<close> is the loop with its two variables
  \<open>filter_count\<close> and \<open>valid_combo_summaries\<close>. The function returns the list; the
  number it prints in \<open>Filtered n invalid combinations\<close> is the second component of
  the result here.
\<close>

fun filter_loop ::
  "ComboSummary list \<Rightarrow> int \<Rightarrow> ComboSummary list \<Rightarrow> ComboSummary list \<times> int"
where
  "filter_loop [] filter_count valid_combo_summaries = (valid_combo_summaries, filter_count)"
| "filter_loop (combo_summary # combo_summaries) filter_count valid_combo_summaries =
     (if list_all (\<lambda>user_prefs. int (length user_prefs) \<ge> MIN_GROUP_SIZE)
           (map snd (book_to_user_pref combo_summary))
      then filter_loop combo_summaries filter_count (valid_combo_summaries @ [combo_summary])
      else filter_loop combo_summaries (filter_count + 1) valid_combo_summaries)"

definition filter_invalid_summaries :: "ComboSummary list \<Rightarrow> ComboSummary list \<times> int" where
  "filter_invalid_summaries combo_summaries = filter_loop combo_summaries 0 []"

text \<open>
  The call \<open>sorted(valid_combo_summaries, key=lambda x: (x.root_mean_square, len(x.books)))\<close>
  in \<open>run\<close>. Python compares the key tuples lexicographically and \<open>sorted\<close> is stable;
  \<open>sort_key\<close> is the stable sort of the library, and pairs are ordered lexicographically.
\<close>

definition sort_key_of :: "ComboSummary \<Rightarrow> real \<times> int" where
  "sort_key_of x = (root_mean_square x, int (length (books x)))"

definition sorted_combo_summaries :: "ComboSummary list \<Rightarrow> ComboSummary list" where
  "sorted_combo_summaries valid_combo_summaries = sort_key sort_key_of valid_combo_summaries"

text \<open>
  \<open>run\<close> without the printing: the values handed to \<open>print_results\<close>, and the count
  printed by the filter.
\<close>

definition run ::
  "string list list \<Rightarrow>
     error + (UserPreference list \<times> string list \<times> string list list
              \<times> ComboSummary list \<times> int \<times> ComboSummary list)"
where
  "run reader =
     (case load_csv reader of
        Inl e \<Rightarrow> Inl e
      | Inr user_prefs \<Rightarrow>
          (let book_titles = get_all_book_titles user_prefs;
               book_combos = combinations_for_all_book_counts book_titles
           in case generate_combo_summaries user_prefs book_combos of
                Inl e \<Rightarrow> Inl e
              | Inr combo_summaries \<Rightarrow>
                  (let (valid_combo_summaries, filter_count) =
                         filter_invalid_summaries combo_summaries
                   in Inr (user_prefs, book_titles, book_combos, valid_combo_summaries,
                           filter_count, sorted_combo_summaries valid_combo_summaries))))"

subsection \<open>Notions of the specification\<close>

text \<open>
  The specification speaks of the first book of a record's preference order that is a
  member of the combo, of the supporters of a book, of the (book, supporting record)
  pairs of a summary, flattened over the whole combo, and of the rank of a book in a
  record's list, its 1-based position. These definitions follow the specification's words;
  the theorems compare them with what the code computes.
\<close>

definition first_in_combo :: "string list \<Rightarrow> UserPreference \<Rightarrow> string option" where
  "first_in_combo bks r = find (\<lambda>t. t \<in> set bks) (books_by_preference r)"

definition supporters_of ::
  "string list \<Rightarrow> UserPreference list \<Rightarrow> string \<Rightarrow> UserPreference list" where
  "supporters_of bks user_prefs b = filter (\<lambda>r. first_in_combo bks r = Some b) user_prefs"

definition rank_pairs :: "(string \<times> UserPreference list) list \<Rightarrow> (string \<times> UserPreference) list" where
  "rank_pairs d = concat (map (\<lambda>(b, us). map (\<lambda>u. (b, u)) us) d)"

definition rank_position :: "UserPreference \<Rightarrow> string \<Rightarrow> int" where
  "rank_position u b = int (length (takeWhile (\<lambda>t. t \<noteq> b) (books_by_preference u))) + 1"

definition pair_rank :: "string \<times> UserPreference \<Rightarrow> int" where
  "pair_rank p = rank_position (snd p) (fst p)"

text \<open>
  A summary is well formed when the keys of its supporter mapping are the books of its
  combo, each once, as in every summary built by \<open>from_books_and_user_prefs\<close>. It has
  quorum when every book of its combo has at least \<open>MIN_GROUP_SIZE\<close> supporters.
\<close>

definition well_formed_summary :: "ComboSummary \<Rightarrow> bool" where
  "well_formed_summary s =
     (distinct (map fst (book_to_user_pref s))
      \<and> fst ` set (book_to_user_pref s) = set (books s))"

definition has_quorum :: "ComboSummary \<Rightarrow> bool" where
  "has_quorum s =
     (\<forall>b \<in> set (books s).
        \<exists>us. map_of (book_to_user_pref s) b = Some us \<and> MIN_GROUP_SIZE \<le> int (length us))"

text \<open>
  \<open>sep.join(pieces)\<close>, the inverse of splitting, used to state what \<open>str_split\<close>
  returns.
\<close>

fun str_join :: "char \<Rightarrow> string list \<Rightarrow> string" where
  "str_join sep [] = []"
| "str_join sep [t] = t"
| "str_join sep (t # u # ts) = t @ sep # str_join sep (u # ts)"

subsection \<open>The scenario of the specification\<close>

text \<open>
  Three records with the preference lists \<open>[A, B, C]\<close>, \<open>[B, A, C]\<close> and
  \<open>[A, C, B]\<close>.
\<close>

definition ann :: UserPreference where
  "ann = \<lparr>first_name = ''Ann'', last_name = ''Lee'', books_by_preference = [''A'', ''B'', ''C'']\<rparr>"

definition bob :: UserPreference where
  "bob = \<lparr>first_name = ''Bob'', last_name = ''Ray'', books_by_preference = [''B'', ''A'', ''C'']\<rparr>"

definition cyd :: UserPreference where
  "cyd = \<lparr>first_name = ''Cyd'', last_name = ''Orr'', books_by_preference = [''A'', ''C'', ''B'']\<rparr>"

text \<open>
  The summaries of the scenario for the combos \<open>{A}\<close> and \<open>{A, B}\<close>.
\<close>

definition summary_A :: ComboSummary where
  "summary_A = \<lparr>books = [''A''], book_to_user_pref = [(''A'', [ann, bob, cyd])],
                avg_score = 4 / 3, harmonic_mean = 6 / 5, root_mean_square = 2 powr (1 / 2)\<rparr>"

definition summary_AB :: ComboSummary where
  "summary_AB = \<lparr>books = [''A'', ''B''],
                 book_to_user_pref = [(''A'', [ann, cyd]), (''B'', [bob])],
                 avg_score = 1, harmonic_mean = 1, root_mean_square = 1\<rparr>"

section \<open>Properties\<close>

subsection \<open>Rank lookup\<close>

lemma get_rank_loop_absent:
  "book \<notin> set bs \<Longrightarrow>
   get_rank_loop k bs book =
     Inl (ValueError (''Book '' @ book @ '' not found in user preferences''))"
  by (induction bs arbitrary: k) auto

lemma get_rank_loop_first:
  "book \<in> set bs \<Longrightarrow>
   get_rank_loop k bs book = Inr (k + int (length (takeWhile (\<lambda>t. t \<noteq> book) bs)) + 1)"
  by (induction bs arbitrary: k) auto

lemma takeWhile_neq_nth_distinct:
  "distinct bs \<Longrightarrow> i < length bs \<Longrightarrow> length (takeWhile (\<lambda>t. t \<noteq> bs ! i) bs) = i"
proof (induction bs arbitrary: i)
  case Nil
  then show ?case by simp
next
  case (Cons b bs)
  show ?case
  proof (cases i)
    case 0
    then show ?thesis by simp
  next
    case (Suc j)
    with Cons.prems have "j < length bs" and "bs ! j \<in> set bs" and "b \<notin> set bs"
      by auto
    then have "b \<noteq> bs ! j" by metis
    with Cons Suc show ?thesis by simp
  qed
qed

text \<open>
  C6. For a record whose ranked list has no duplicate titles, looking up the book at
  position \<open>i\<close> (counted from 0) returns \<open>i + 1\<close>, its 1-based index; looking up a book
  that is not in the list raises \<open>ValueError\<close>.
\<close>

theorem get_rank_of_book_index:
  "(distinct (books_by_preference r) \<longrightarrow>
      (\<forall>i < length (books_by_preference r).
         get_rank_of_book r (books_by_preference r ! i) = Inr (int i + 1)))
   \<and> (\<forall>book. book \<notin> set (books_by_preference r) \<longrightarrow>
         get_rank_of_book r book =
           Inl (ValueError (''Book '' @ book @ '' not found in user preferences'')))"
proof (intro conjI impI allI)
  fix i
  assume d: "distinct (books_by_preference r)" and i: "i < length (books_by_preference r)"
  then have "books_by_preference r ! i \<in> set (books_by_preference r)" by simp
  then show "get_rank_of_book r (books_by_preference r ! i) = Inr (int i + 1)"
    using takeWhile_neq_nth_distinct [OF d i]
    by (simp add: get_rank_of_book_def get_rank_loop_first)
next
  fix book
  assume "book \<notin> set (books_by_preference r)"
  then show "get_rank_of_book r book =
      Inl (ValueError (''Book '' @ book @ '' not found in user preferences''))"
    by (simp add: get_rank_of_book_def get_rank_loop_absent)
qed

theorem get_rank_of_book_index_witness:
  "distinct [''Dune'', ''Emma'', ''Ulysses'']
   \<and> get_rank_of_book
        \<lparr>first_name = ''Ann'', last_name = ''Lee'',
         books_by_preference = [''Dune'', ''Emma'', ''Ulysses'']\<rparr> ''Ulysses'' = Inr 3
   \<and> ''Walden'' \<notin> set [''Dune'', ''Emma'', ''Ulysses'']
   \<and> get_rank_of_book
        \<lparr>first_name = ''Ann'', last_name = ''Lee'',
         books_by_preference = [''Dune'', ''Emma'', ''Ulysses'']\<rparr> ''Walden'' =
       Inl (ValueError ''Book Walden not found in user preferences'')"
proof -
  let ?r = "\<lparr>first_name = ''Ann'', last_name = ''Lee'',
             books_by_preference = [''Dune'', ''Emma'', ''Ulysses'']\<rparr>"
  have "get_rank_of_book ?r (books_by_preference ?r ! 2) = Inr (int 2 + 1)"
    using get_rank_of_book_index [of ?r, THEN conjunct1, rule_format, of 2] by simp
  moreover have "get_rank_of_book ?r ''Walden'' =
      Inl (ValueError (''Book '' @ ''Walden'' @ '' not found in user preferences''))"
    using get_rank_of_book_index [of ?r, THEN conjunct2, rule_format, of "''Walden''"]
    by simp
  ultimately show ?thesis by simp
qed

subsection \<open>The supporter assignment\<close>

lemma fold_update_empty_map_of:
  "map_of (fold (\<lambda>book d. AList.update book [] d) bks d0) b =
     (if b \<in> set bks then Some [] else map_of d0 b)"
  by (induction bks arbitrary: d0) (auto simp: update_conv')

lemma fold_update_empty_distinct:
  "distinct (map fst d0) \<Longrightarrow>
   distinct (map fst (fold (\<lambda>book d. AList.update book [] d) bks d0))"
  by (induction bks arbitrary: d0) (auto simp: distinct_update)

lemma fold_update_empty_keys:
  "fst ` set (fold (\<lambda>book d. AList.update book [] d) bks d0) = set bks \<union> fst ` set d0"
  by (induction bks arbitrary: d0) (auto simp: dom_update)

lemma empty_supporters_map_of:
  "map_of (empty_supporters bks) b = (if b \<in> set bks then Some [] else None)"
  by (simp add: empty_supporters_def fold_update_empty_map_of)

lemma empty_supporters_distinct: "distinct (map fst (empty_supporters bks))"
  by (simp add: empty_supporters_def fold_update_empty_distinct)

lemma empty_supporters_keys: "fst ` set (empty_supporters bks) = set bks"
  by (simp add: empty_supporters_def fold_update_empty_keys)

lemma assign_user_find:
  "\<forall>b \<in> set bks. map_of d b \<noteq> None \<Longrightarrow>
   assign_user bks u prefs d =
     Inr (case find (\<lambda>t. t \<in> set bks) prefs of
            None \<Rightarrow> d
          | Some b \<Rightarrow> AList.update b (the (map_of d b) @ [u]) d)"
  by (induction prefs) auto

lemma find_in_combo: "find (\<lambda>t. t \<in> set bks) prefs = Some b \<Longrightarrow> b \<in> set bks \<and> b \<in> set prefs"
  by (induction prefs) (auto split: if_splits)

lemma assign_users_result:
  "dom (map_of d) = set bks \<Longrightarrow>
   \<exists>d'. assign_users bks us d = Inr d'
     \<and> map fst d' = map fst d
     \<and> (\<forall>b \<in> set bks. map_of d' b = Some (the (map_of d b) @ supporters_of bks us b))"
proof (induction us arbitrary: d)
  case Nil
  then have "\<forall>b \<in> set bks. \<exists>y. map_of d b = Some y" by blast
  then show ?case by (auto simp: supporters_of_def)
next
  case (Cons u us)
  have nn: "\<forall>b \<in> set bks. map_of d b \<noteq> None" using Cons.prems by auto
  define d1 where "d1 = (case first_in_combo bks u of
            None \<Rightarrow> d
          | Some b \<Rightarrow> AList.update b (the (map_of d b) @ [u]) d)"
  have step: "assign_user bks u (books_by_preference u) d = Inr d1"
    using assign_user_find [OF nn] by (simp add: d1_def first_in_combo_def)
  have keys1: "map fst d1 = map fst d"
  proof (cases "first_in_combo bks u")
    case None then show ?thesis by (simp add: d1_def)
  next
    case (Some b)
    then have "b \<in> set bks"
      using find_in_combo [of bks "books_by_preference u" b] by (simp add: first_in_combo_def)
    then have "b \<in> fst ` set d" using Cons.prems by (auto simp: dom_map_of_conv_image_fst)
    then show ?thesis using Some by (simp add: d1_def update_keys)
  qed
  have dom1: "dom (map_of d1) = set bks"
    using keys1 Cons.prems by (metis dom_map_of_conv_image_fst list.set_map)
  have val1: "\<forall>b \<in> set bks. map_of d1 b =
      Some (the (map_of d b) @ (if first_in_combo bks u = Some b then [u] else []))"
    using nn by (auto simp: d1_def update_conv' split: option.splits)
  from Cons.IH [OF dom1] obtain d' where
    r: "assign_users bks us d1 = Inr d'" and k: "map fst d' = map fst d1"
    and v: "\<forall>b \<in> set bks. map_of d' b = Some (the (map_of d1 b) @ supporters_of bks us b)"
    by blast
  have "\<forall>b \<in> set bks. map_of d' b = Some (the (map_of d b) @ supporters_of bks (u # us) b)"
    using v val1 by (auto simp: supporters_of_def)
  with r k keys1 step show ?case by auto
qed

lemma assign_users_empty_supporters:
  "\<exists>d. assign_users bks us (empty_supporters bks) = Inr d
     \<and> distinct (map fst d) \<and> fst ` set d = set bks
     \<and> (\<forall>b \<in> set bks. map_of d b = Some (supporters_of bks us b))"
proof -
  have "dom (map_of (empty_supporters bks)) = set bks"
    by (simp add: dom_map_of_conv_image_fst empty_supporters_keys)
  from assign_users_result [OF this, of us] obtain d where
    r: "assign_users bks us (empty_supporters bks) = Inr d"
    and k: "map fst d = map fst (empty_supporters bks)"
    and v: "\<forall>b \<in> set bks. map_of d b =
               Some (the (map_of (empty_supporters bks) b) @ supporters_of bks us b)"
    by blast
  have "distinct (map fst d)" using k empty_supporters_distinct by simp
  moreover have "fst ` set d = set bks"
    using k empty_supporters_keys by (metis list.set_map)
  moreover have "\<forall>b \<in> set bks. map_of d b = Some (supporters_of bks us b)"
    using v by (simp add: empty_supporters_map_of)
  ultimately show ?thesis using r by blast
qed

subsection \<open>The statistics loop\<close>

lemma rank_position_pos: "1 \<le> rank_position u b"
  by (simp add: rank_position_def)

lemma get_rank_of_book_position:
  "b \<in> set (books_by_preference u) \<Longrightarrow> get_rank_of_book u b = Inr (rank_position u b)"
  by (simp add: get_rank_of_book_def rank_position_def get_rank_loop_first)

lemma score_users_ok:
  "\<forall>u \<in> set us. book \<in> set (books_by_preference u) \<Longrightarrow>
   score_users book us (a, h, q, n) =
     Inr (a + (\<Sum>u\<leftarrow>us. rank_position u book),
          h + (\<Sum>u\<leftarrow>us. 1 / real_of_int (rank_position u book)),
          q + (\<Sum>u\<leftarrow>us. (rank_position u book)\<^sup>2),
          n + int (length us))"
proof (induction us arbitrary: a h q n)
  case Nil
  then show ?case by simp
next
  case (Cons u us)
  have r: "get_rank_of_book u book = Inr (rank_position u book)"
    using Cons.prems by (simp add: get_rank_of_book_position)
  have nz: "rank_position u book \<noteq> 0"
    using rank_position_pos [of u book] by simp
  have "\<forall>u \<in> set us. book \<in> set (books_by_preference u)" using Cons.prems by simp
  from Cons.IH [OF this] r nz show ?case by (simp add: algebra_simps)
qed

lemma score_items_ok:
  "\<forall>p \<in> set (rank_pairs d). fst p \<in> set (books_by_preference (snd p)) \<Longrightarrow>
   score_items d (a, h, q, n) =
     Inr (a + (\<Sum>p\<leftarrow>rank_pairs d. pair_rank p),
          h + (\<Sum>p\<leftarrow>rank_pairs d. 1 / real_of_int (pair_rank p)),
          q + (\<Sum>p\<leftarrow>rank_pairs d. (pair_rank p)\<^sup>2),
          n + int (length (rank_pairs d)))"
proof (induction d arbitrary: a h q n)
  case Nil
  then show ?case by (simp add: rank_pairs_def)
next
  case (Cons item d)
  obtain book us where item: "item = (book, us)" by (cases item) auto
  have split: "rank_pairs ((book, us) # d) = map (\<lambda>u. (book, u)) us @ rank_pairs d"
    by (simp add: rank_pairs_def)
  have here: "\<forall>u \<in> set us. book \<in> set (books_by_preference u)"
  proof
    fix u assume "u \<in> set us"
    then have "(book, u) \<in> set (rank_pairs (item # d))" by (simp add: split item)
    with Cons.prems show "book \<in> set (books_by_preference u)" by fastforce
  qed
  have rest: "\<forall>p \<in> set (rank_pairs d). fst p \<in> set (books_by_preference (snd p))"
    using Cons.prems by (auto simp: split item)
  show ?case
    unfolding item split
    by (simp add: score_users_ok [OF here] Cons.IH [OF rest] pair_rank_def o_def algebra_simps)
qed

lemma harmonic_sum_pos:
  "ps \<noteq> [] \<Longrightarrow> 0 < (\<Sum>p\<leftarrow>ps. 1 / real_of_int (pair_rank p))"
proof (induction ps)
  case Nil
  then show ?case by simp
next
  case (Cons p ps)
  have "0 < 1 / real_of_int (pair_rank p)"
    using rank_position_pos [of "snd p" "fst p"] by (simp add: pair_rank_def)
  moreover have "0 \<le> (\<Sum>p\<leftarrow>ps. 1 / real_of_int (pair_rank p))"
    using Cons.IH by (cases ps) auto
  ultimately have "0 < 1 / real_of_int (pair_rank p) + (\<Sum>p\<leftarrow>ps. 1 / real_of_int (pair_rank p))"
    by (rule add_pos_nonneg)
  then show ?case by simp
qed

lemma squares_sum_nonneg: "0 \<le> (\<Sum>p\<leftarrow>ps. (pair_rank p)\<^sup>2)"
  by (induction ps) auto

lemma post_init_ok:
  assumes "rank_pairs d \<noteq> []"
    and "\<forall>p \<in> set (rank_pairs d). fst p \<in> set (books_by_preference (snd p))"
  shows "post_init bks d =
     Inr \<lparr>books = bks, book_to_user_pref = d,
          avg_score = real_of_int (\<Sum>p\<leftarrow>rank_pairs d. pair_rank p) / real (length (rank_pairs d)),
          harmonic_mean = real (length (rank_pairs d)) / (\<Sum>p\<leftarrow>rank_pairs d. 1 / real_of_int (pair_rank p)),
          root_mean_square =
            sqrt (real_of_int (\<Sum>p\<leftarrow>rank_pairs d. (pair_rank p)\<^sup>2) / real (length (rank_pairs d)))\<rparr>"
proof -
  have h: "(\<Sum>p\<leftarrow>rank_pairs d. 1 / real_of_int (pair_rank p)) \<noteq> 0"
    using harmonic_sum_pos [OF assms(1)] by simp
  have q: "0 \<le> real_of_int (\<Sum>p\<leftarrow>rank_pairs d. (pair_rank p)\<^sup>2) / real (length (rank_pairs d))"
    using squares_sum_nonneg [of "rank_pairs d"] by simp
  show ?thesis
    using assms(1) h powr_half_sqrt [OF q]
    by (simp add: post_init_def score_items_ok [OF assms(2)])
qed

lemma post_init_empty:
  assumes "rank_pairs d = []"
  shows "post_init bks d = Inl ZeroDivisionError"
proof -
  have "\<forall>p \<in> set (rank_pairs d). fst p \<in> set (books_by_preference (snd p))"
    using assms by simp
  from score_items_ok [OF this] show ?thesis
    using assms by (simp add: post_init_def)
qed

lemma post_init_fields:
  "post_init bks d = Inr s \<Longrightarrow> books s = bks \<and> book_to_user_pref s = d"
  by (auto simp: post_init_def split: sum.splits prod.splits if_splits)

lemma from_books_and_user_prefs_InrD:
  assumes "from_books_and_user_prefs bks user_prefs = Inr s"
  shows "assign_users bks user_prefs (empty_supporters bks) = Inr (book_to_user_pref s)
         \<and> post_init bks (book_to_user_pref s) = Inr s \<and> books s = bks"
  using assms post_init_fields
  by (fastforce simp: from_books_and_user_prefs_def split: sum.splits)

lemma supporters_of_member:
  "r \<in> set (supporters_of bks user_prefs b) \<longleftrightarrow>
     r \<in> set user_prefs \<and> first_in_combo bks r = Some b"
  by (auto simp: supporters_of_def)

lemma first_in_combo_Some:
  "first_in_combo bks r = Some b \<Longrightarrow> b \<in> set bks \<and> b \<in> set (books_by_preference r)"
  using find_in_combo [of bks "books_by_preference r" b] by (simp add: first_in_combo_def)

lemma first_in_combo_None:
  "first_in_combo bks r = None \<longleftrightarrow> set (books_by_preference r) \<inter> set bks = {}"
  by (auto simp: first_in_combo_def find_None_iff)

lemma rank_pairs_member:
  "(b, u) \<in> set (rank_pairs d) \<longleftrightarrow> (\<exists>us. (b, us) \<in> set d \<and> u \<in> set us)"
  by (auto simp: rank_pairs_def)

lemma rank_pairs_empty_iff: "rank_pairs d = [] \<longleftrightarrow> (\<forall>p \<in> set d. snd p = [])"
  by (induction d) (auto simp: rank_pairs_def)

lemma assigned_entry:
  assumes "assign_users bks user_prefs (empty_supporters bks) = Inr d"
    and "(b, us) \<in> set d"
  shows "b \<in> set bks \<and> us = supporters_of bks user_prefs b"
proof -
  from assign_users_empty_supporters [of bks user_prefs] assms(1)
  have dist: "distinct (map fst d)" and keys: "fst ` set d = set bks"
    and vals: "\<forall>b \<in> set bks. map_of d b = Some (supporters_of bks user_prefs b)"
    by auto
  have b: "b \<in> set bks" using keys assms(2) by force
  have "map_of d b = Some us" using dist assms(2) by simp
  with vals b show ?thesis by simp
qed

text \<open>
  C1. In the summary that \<open>from_books_and_user_prefs\<close> builds for a combo, the keys of
  the supporter mapping are the books of the combo, each once, and the supporters of a
  book are exactly the records, in input order, whose first preferred book in the combo is
  that book. So a record listed under a book is an input record with that book as its first
  match, no record is listed under two different books, and a record whose list has no
  book of the combo is listed under none.
\<close>

theorem from_books_and_user_prefs_first_match:
  assumes "from_books_and_user_prefs bks user_prefs = Inr s"
  shows "distinct (map fst (book_to_user_pref s))
    \<and> fst ` set (book_to_user_pref s) = set bks
    \<and> (\<forall>b \<in> set bks.
          map_of (book_to_user_pref s) b =
            Some (filter (\<lambda>r. find (\<lambda>t. t \<in> set bks) (books_by_preference r) = Some b)
                    user_prefs))
    \<and> (\<forall>b us r. (b, us) \<in> set (book_to_user_pref s) \<and> r \<in> set us \<longrightarrow>
          r \<in> set user_prefs
          \<and> find (\<lambda>t. t \<in> set bks) (books_by_preference r) = Some b)
    \<and> (\<forall>b us b' us' r.
          (b, us) \<in> set (book_to_user_pref s) \<and> r \<in> set us
          \<and> (b', us') \<in> set (book_to_user_pref s) \<and> r \<in> set us' \<longrightarrow> b = b')
    \<and> (\<forall>r. set (books_by_preference r) \<inter> set bks = {} \<longrightarrow>
          (\<forall>b us. (b, us) \<in> set (book_to_user_pref s) \<longrightarrow> r \<notin> set us))"
proof -
  let ?d = "book_to_user_pref s"
  have run: "assign_users bks user_prefs (empty_supporters bks) = Inr ?d"
    using from_books_and_user_prefs_InrD [OF assms] by simp
  from assign_users_empty_supporters [of bks user_prefs] run
  have dist: "distinct (map fst ?d)" and keys: "fst ` set ?d = set bks"
    and vals: "\<forall>b \<in> set bks. map_of ?d b = Some (supporters_of bks user_prefs b)"
    by auto
  have entry: "\<And>b us r. (b, us) \<in> set ?d \<Longrightarrow> r \<in> set us \<Longrightarrow>
      r \<in> set user_prefs \<and> first_in_combo bks r = Some b"
    using assigned_entry [OF run] supporters_of_member by blast
  have one: "\<forall>b us b' us' r.
          (b, us) \<in> set ?d \<and> r \<in> set us \<and> (b', us') \<in> set ?d \<and> r \<in> set us' \<longrightarrow> b = b'"
    using entry by (metis option.inject)
  have none: "\<forall>r. set (books_by_preference r) \<inter> set bks = {} \<longrightarrow>
          (\<forall>b us. (b, us) \<in> set ?d \<longrightarrow> r \<notin> set us)"
    using entry first_in_combo_None by (metis option.distinct(1))
  show ?thesis
    using dist keys vals entry one none
    unfolding supporters_of_def first_in_combo_def by blast
qed

theorem from_books_and_user_prefs_first_match_witness:
  "from_books_and_user_prefs [''A'', ''B''] [ann, bob, cyd] =
     Inr \<lparr>books = [''A'', ''B''],
          book_to_user_pref = [(''A'', [ann, cyd]), (''B'', [bob])],
          avg_score = 1, harmonic_mean = 1, root_mean_square = 1\<rparr>
   \<and> [(''A'', [ann, cyd]), (''B'', [bob])] =
       [(''A'', filter (\<lambda>r. find (\<lambda>t. t \<in> set [''A'', ''B'']) (books_by_preference r) = Some ''A'')
                  [ann, bob, cyd]),
        (''B'', filter (\<lambda>r. find (\<lambda>t. t \<in> set [''A'', ''B'']) (books_by_preference r) = Some ''B'')
                  [ann, bob, cyd])]"
proof -
  have h: "from_books_and_user_prefs [''A'', ''B''] [ann, bob, cyd] =
     Inr \<lparr>books = [''A'', ''B''],
          book_to_user_pref = [(''A'', [ann, cyd]), (''B'', [bob])],
          avg_score = 1, harmonic_mean = 1, root_mean_square = 1\<rparr>"
    by (simp add: from_books_and_user_prefs_def empty_supporters_def post_init_def
      get_rank_of_book_def ann_def bob_def cyd_def)
  note t = from_books_and_user_prefs_first_match [OF h, THEN conjunct2, THEN conjunct2, THEN conjunct1]
  have "map_of [(''A'', [ann, cyd]), (''B'', [bob])] ''A'' =
      Some (filter (\<lambda>r. find (\<lambda>t. t \<in> set [''A'', ''B'']) (books_by_preference r) = Some ''A'')
                  [ann, bob, cyd])"
    using t [rule_format, of "''A''"] by simp
  moreover have "map_of [(''A'', [ann, cyd]), (''B'', [bob])] ''B'' =
      Some (filter (\<lambda>r. find (\<lambda>t. t \<in> set [''A'', ''B'']) (books_by_preference r) = Some ''B'')
                  [ann, bob, cyd])"
    using t [rule_format, of "''B''"] by simp
  ultimately show ?thesis using h by simp
qed

text \<open>
  C7. For a combo with at least one book, when no record's preference list contains a
  book of the combo, \<open>from_books_and_user_prefs\<close> raises \<open>ZeroDivisionError\<close>; and
  the constructor raises it for every supporter mapping without pairs. The result is the
  exception, not a summary holding zero or NaN.
\<close>

theorem from_books_and_user_prefs_no_supporters:
  "(bks \<noteq> [] \<and> (\<forall>u \<in> set user_prefs. \<forall>b \<in> set bks. b \<notin> set (books_by_preference u))
      \<longrightarrow> from_books_and_user_prefs bks user_prefs = Inl ZeroDivisionError)
   \<and> (rank_pairs d = [] \<longrightarrow> post_init bks d = Inl ZeroDivisionError)"
proof (intro conjI impI)
  assume a: "bks \<noteq> [] \<and> (\<forall>u \<in> set user_prefs. \<forall>b \<in> set bks. b \<notin> set (books_by_preference u))"
  from assign_users_empty_supporters [of bks user_prefs] obtain d' where
    run: "assign_users bks user_prefs (empty_supporters bks) = Inr d'" by blast
  have "\<forall>p \<in> set d'. snd p = []"
  proof
    fix p assume p: "p \<in> set d'"
    then have "(fst p, snd p) \<in> set d'" by simp
    from assigned_entry [OF run this]
    have "snd p = supporters_of bks user_prefs (fst p)" by simp
    moreover have "supporters_of bks user_prefs (fst p) = []"
      using a first_in_combo_Some by (fastforce simp: supporters_of_def filter_empty_conv)
    ultimately show "snd p = []" by simp
  qed
  then have "rank_pairs d' = []" by (simp add: rank_pairs_empty_iff)
  then show "from_books_and_user_prefs bks user_prefs = Inl ZeroDivisionError"
    using run by (simp add: from_books_and_user_prefs_def post_init_empty)
next
  assume "rank_pairs d = []"
  then show "post_init bks d = Inl ZeroDivisionError" by (rule post_init_empty)
qed

theorem from_books_and_user_prefs_no_supporters_witness:
  "[''Z''] \<noteq> []
   \<and> ''Z'' \<notin> set (books_by_preference ann)
   \<and> ''Z'' \<notin> set (books_by_preference bob)
   \<and> ''Z'' \<notin> set (books_by_preference cyd)
   \<and> from_books_and_user_prefs [''Z''] [ann, bob, cyd] = Inl ZeroDivisionError
   \<and> rank_pairs [(''Z'', [])] = []
   \<and> post_init [''Z''] [(''Z'', [])] = Inl ZeroDivisionError"
proof -
  have h: "[''Z''] \<noteq> []
     \<and> (\<forall>u \<in> set [ann, bob, cyd]. \<forall>b \<in> set [''Z'']. b \<notin> set (books_by_preference u))"
    by (simp add: ann_def bob_def cyd_def)
  have e: "rank_pairs [(''Z'', [])] = []" by (simp add: rank_pairs_def)
  note t = from_books_and_user_prefs_no_supporters [of "[''Z'']" "[ann, bob, cyd]" "[(''Z'', [])]"]
  from t [THEN conjunct1, rule_format, OF h] t [THEN conjunct2, rule_format, OF e] h e
  show ?thesis by simp
qed

subsection \<open>The combination generator\<close>

lemma set_add_set: "set (set_add s x) = insert x (set s)"
  by (auto simp: set_add_def)

lemma set_add_distinct: "distinct s \<Longrightarrow> distinct (set_add s x)"
  by (simp add: set_add_def)

lemma set_update_set: "set (set_update s xs) = set s \<union> set xs"
  unfolding set_update_def by (induction xs arbitrary: s) (auto simp: set_add_set)

lemma set_update_distinct: "distinct s \<Longrightarrow> distinct (set_update s xs)"
  unfolding set_update_def by (induction xs arbitrary: s) (auto simp: set_add_distinct)

lemma set_update_fresh: "distinct (s @ xs) \<Longrightarrow> set_update s xs = s @ xs"
  unfolding set_update_def
proof (induction xs arbitrary: s)
  case Nil
  then show ?case by simp
next
  case (Cons x xs)
  have "set_add s x = s @ [x]" using Cons.prems by (simp add: set_add_def)
  moreover have "distinct ((s @ [x]) @ xs)" using Cons.prems by simp
  ultimately show ?case using Cons.IH [of "s @ [x]"] by simp
qed

lemma set_of_distinct_id: "distinct xs \<Longrightarrow> set_of xs = xs"
  using set_update_fresh [of "[]" xs] by (simp add: set_of_def)

lemma set_of_set: "set (set_of xs) = set xs"
  by (simp add: set_of_def set_update_set)

lemma set_of_distinct: "distinct (set_of xs)"
  by (simp add: set_of_def set_update_distinct)

lemma combinations_length: "ys \<in> set (combinations xs r) \<Longrightarrow> length ys = r"
  by (induction xs r arbitrary: ys rule: combinations.induct) auto

lemma combinations_subseqs: "set (combinations xs r) = {ys \<in> set (subseqs xs). length ys = r}"
proof (induction xs r rule: combinations.induct)
  case (1 xs)
  have "[] \<in> set (subseqs xs)" by (induction xs) (auto simp: Let_def)
  then show ?case by auto
next
  case (2 r)
  then show ?case by auto
next
  case (3 x xs r)
  then show ?case by (auto simp: Let_def)
qed

lemma combinations_subset: "ys \<in> set (combinations xs r) \<Longrightarrow> set ys \<subseteq> set xs"
proof (induction xs r arbitrary: ys rule: combinations.induct)
  case (1 xs)
  then show ?case by simp
next
  case (2 r)
  then show ?case by simp
next
  case (3 x xs r)
  from "3.prems" consider
    (hd) zs where "ys = x # zs" "zs \<in> set (combinations xs r)"
    | (tl) "ys \<in> set (combinations xs (Suc r))"
    by auto
  then show ?case
  proof cases
    case hd
    with "3.IH"(1) [of zs] show ?thesis by auto
  next
    case tl
    with "3.IH"(2) [of ys] show ?thesis by auto
  qed
qed

lemma combinations_distinct: "distinct xs \<Longrightarrow> distinct (combinations xs r)"
proof (induction xs r rule: combinations.induct)
  case (1 xs)
  then show ?case by simp
next
  case (2 r)
  then show ?case by simp
next
  case (3 x xs r)
  have x: "x \<notin> set xs" and d: "distinct xs" using "3.prems" by auto
  have "\<And>zs. x # zs \<notin> set (combinations xs (Suc r))"
    using combinations_subset [of _ xs "Suc r"] x by fastforce
  then have "set (map ((#) x) (combinations xs r)) \<inter> set (combinations xs (Suc r)) = {}"
    by auto
  moreover have "distinct (map ((#) x) (combinations xs r))"
    using "3.IH"(1) [OF d] by (simp add: distinct_map)
  ultimately show ?case using "3.IH"(2) [OF d] by simp
qed

lemma combinations_elem_distinct:
  "distinct xs \<Longrightarrow> ys \<in> set (combinations xs r) \<Longrightarrow> distinct ys"
proof (induction xs r arbitrary: ys rule: combinations.induct)
  case (1 xs)
  then show ?case by simp
next
  case (2 r)
  then show ?case by simp
next
  case (3 x xs r)
  have x: "x \<notin> set xs" and d: "distinct xs" using "3.prems" by auto
  from "3.prems"(2) consider
    (hd) zs where "ys = x # zs" "zs \<in> set (combinations xs r)"
    | (tl) "ys \<in> set (combinations xs (Suc r))"
    by auto
  then show ?case
  proof cases
    case hd
    then have "set zs \<subseteq> set xs" using combinations_subset by blast
    with hd x "3.IH"(1) [OF d hd(2)] show ?thesis by auto
  next
    case tl
    with "3.IH"(2) [OF d] show ?thesis by simp
  qed
qed

lemma combinations_count: "length (combinations xs r) = length xs choose r"
  by (induction xs r rule: combinations.induct) auto

lemma fold_extend:
  "fold (\<lambda>i acc. acc @ f i) is acc0 = acc0 @ concat (map f is)"
  by (induction "is" arbitrary: acc0) auto

lemma combinations_for_all_book_counts_concat:
  "combinations_for_all_book_counts titles =
     concat (map (\<lambda>i. set_of (combinations titles i)) [1 ..< length titles + 1])"
  by (simp add: combinations_for_all_book_counts_def fold_extend)

lemma subseqs_length_le: "ys \<in> set (subseqs xs) \<Longrightarrow> length ys \<le> length xs"
  by (induction xs arbitrary: ys) (auto simp: Let_def le_SucI)

lemma combinations_for_all_book_counts_set:
  "set (combinations_for_all_book_counts titles) =
     {ys \<in> set (subseqs titles). ys \<noteq> []}"
proof (intro set_eqI iffI)
  fix ys
  assume "ys \<in> set (combinations_for_all_book_counts titles)"
  then obtain i where "1 \<le> i" and "ys \<in> set (combinations titles i)"
    by (auto simp: combinations_for_all_book_counts_concat set_of_set)
  then show "ys \<in> {ys \<in> set (subseqs titles). ys \<noteq> []}"
    by (auto simp: combinations_subseqs)
next
  fix ys
  assume "ys \<in> {ys \<in> set (subseqs titles). ys \<noteq> []}"
  then have s: "ys \<in> set (subseqs titles)" and ne: "ys \<noteq> []" by auto
  have "length ys \<le> length titles" using s by (rule subseqs_length_le)
  moreover have "1 \<le> length ys" using ne by (cases ys) auto
  moreover have "ys \<in> set (combinations titles (length ys))"
    using s by (simp add: combinations_subseqs)
  ultimately have "length ys \<in> set [1 ..< length titles + 1]
      \<and> ys \<in> set (set_of (combinations titles (length ys)))"
    by (auto simp: set_of_set)
  then have "\<exists>i \<in> set [1 ..< length titles + 1]. ys \<in> set (set_of (combinations titles i))"
    by blast
  then show "ys \<in> set (combinations_for_all_book_counts titles)"
    unfolding combinations_for_all_book_counts_concat set_concat by (simp del: upt_Suc)
qed

lemma subseqs_Nil_mem: "[] \<in> set (subseqs xs)"
  by (induction xs) (auto simp: Let_def)

lemma sum_choose_from_1: "(\<Sum>i\<leftarrow>[Suc 0 ..< Suc n]. n choose i) = 2 ^ n - 1"
proof -
  have a: "(\<Sum>i\<leftarrow>[0 ..< Suc n]. n choose i) = sum ((choose) n) (set [0 ..< Suc n])"
    by (rule interv_sum_list_conv_sum_set_nat)
  have b: "set [0 ..< Suc n] = {..n}" by auto
  have c: "[0 ..< Suc n] = 0 # [Suc 0 ..< Suc n]" by (rule upt_conv_Cons) simp
  have "(\<Sum>i\<leftarrow>[0 ..< Suc n]. n choose i) = 2 ^ n"
    unfolding a b by (rule choose_row_sum)
  then have "(n choose 0) + (\<Sum>i\<leftarrow>[Suc 0 ..< Suc n]. n choose i) = 2 ^ n"
    unfolding c by (simp only: list.map sum_list.Cons)
  then show ?thesis by (simp del: upt_Suc)
qed

lemma combinations_for_all_book_counts_length:
  assumes "distinct titles"
  shows "length (combinations_for_all_book_counts titles) = 2 ^ length titles - 1"
proof -
  have "\<And>i. set_of (combinations titles i) = combinations titles i"
    using assms by (simp add: set_of_distinct_id combinations_distinct)
  then have "length (combinations_for_all_book_counts titles) =
      (\<Sum>i\<leftarrow>[1 ..< length titles + 1]. length titles choose i)"
    by (simp add: combinations_for_all_book_counts_concat length_concat o_def combinations_count
        del: upt_Suc)
  then show ?thesis by (simp add: sum_choose_from_1 del: upt_Suc)
qed

lemma combinations_for_all_book_counts_distinct_sets:
  assumes "distinct titles"
  shows "distinct (map set (combinations_for_all_book_counts titles))"
proof -
  have sub: "set (combinations_for_all_book_counts titles) \<subseteq> set (subseqs titles)"
    by (auto simp: combinations_for_all_book_counts_set)
  have len: "length (combinations_for_all_book_counts titles) = 2 ^ length titles - 1"
    using assms by (rule combinations_for_all_book_counts_length)
  have dsub: "distinct (subseqs titles)"
    using distinct_set_subseqs [OF assms] by (simp add: distinct_map)
  have "card (set (combinations_for_all_book_counts titles)) =
      card (set (subseqs titles) - {[]})"
    by (rule arg_cong [where f = card]) (auto simp: combinations_for_all_book_counts_set)
  also have "\<dots> = 2 ^ length titles - 1"
    using dsub subseqs_Nil_mem [of titles]
    by (simp add: distinct_card length_subseqs card_Diff_singleton)
  finally have "card (set (combinations_for_all_book_counts titles)) =
      length (combinations_for_all_book_counts titles)"
    using len by simp
  then have d: "distinct (combinations_for_all_book_counts titles)"
    by (rule card_distinct)
  have inj: "inj_on set (set (subseqs titles))"
    using distinct_set_subseqs [OF assms] by (simp add: distinct_map)
  show ?thesis
    using d inj sub by (auto simp: distinct_map intro: inj_on_subset)
qed

text \<open>
  C3. For a title universe \<open>U\<close>, given as the list of its distinct titles in iteration
  order, the generator returns \<open>2 ^ |U| - 1\<close> combinations; read as sets they are pairwise
  different, and they are exactly the non-empty subsets of \<open>U\<close>; no combination repeats a
  title.
\<close>

theorem combinations_for_all_book_counts_powerset:
  assumes "distinct titles"
  shows "length (combinations_for_all_book_counts titles) = 2 ^ card (set titles) - 1
    \<and> distinct (map set (combinations_for_all_book_counts titles))
    \<and> set ` set (combinations_for_all_book_counts titles) = Pow (set titles) - {{}}
    \<and> (\<forall>c \<in> set (combinations_for_all_book_counts titles). c \<noteq> [] \<and> distinct c)"
proof (intro conjI)
  show "length (combinations_for_all_book_counts titles) = 2 ^ card (set titles) - 1"
    using assms by (simp add: combinations_for_all_book_counts_length distinct_card)
  show "distinct (map set (combinations_for_all_book_counts titles))"
    using assms by (rule combinations_for_all_book_counts_distinct_sets)
  have "set ` {ys \<in> set (subseqs titles). ys \<noteq> []} = set ` set (subseqs titles) - {{}}"
    by auto
  then show "set ` set (combinations_for_all_book_counts titles) = Pow (set titles) - {{}}"
    by (simp add: combinations_for_all_book_counts_set subseqs_powset)
  show "\<forall>c \<in> set (combinations_for_all_book_counts titles). c \<noteq> [] \<and> distinct c"
  proof
    fix c assume "c \<in> set (combinations_for_all_book_counts titles)"
    then have "c \<in> set (subseqs titles)" and "c \<noteq> []"
      by (auto simp: combinations_for_all_book_counts_set)
    then have "c \<in> set (combinations titles (length c))"
      by (simp add: combinations_subseqs)
    with assms \<open>c \<noteq> []\<close> show "c \<noteq> [] \<and> distinct c"
      using combinations_elem_distinct by blast
  qed
qed

theorem combinations_for_all_book_counts_powerset_witness:
  "distinct [''A'', ''B'', ''C'']
   \<and> combinations_for_all_book_counts [''A'', ''B'', ''C''] =
       [[''A''], [''B''], [''C''], [''A'', ''B''], [''A'', ''C''], [''B'', ''C''],
        [''A'', ''B'', ''C'']]
   \<and> length (combinations_for_all_book_counts [''A'', ''B'', ''C'']) = 2 ^ 3 - 1
   \<and> distinct (map set (combinations_for_all_book_counts [''A'', ''B'', ''C'']))"
proof -
  have d: "distinct [''A'', ''B'', ''C'']" by simp
  have v: "combinations_for_all_book_counts [''A'', ''B'', ''C''] =
       [[''A''], [''B''], [''C''], [''A'', ''B''], [''A'', ''C''], [''B'', ''C''],
        [''A'', ''B'', ''C'']]"
    by (simp add: combinations_for_all_book_counts_def set_of_def set_update_def set_add_def
        upt_rec numeral_2_eq_2 numeral_3_eq_3)
  have c: "card (set [''A'', ''B'', ''C'']) = 3" by simp
  from combinations_for_all_book_counts_powerset [OF d]
  have "length (combinations_for_all_book_counts [''A'', ''B'', ''C'']) =
          2 ^ card (set [''A'', ''B'', ''C'']) - 1"
    and "distinct (map set (combinations_for_all_book_counts [''A'', ''B'', ''C'']))"
    by blast+
  then show ?thesis using d v unfolding c by blast
qed

subsection \<open>The title universe and the whole scoring stage\<close>

lemma get_all_book_titles_fold_set:
  "set (fold (\<lambda>user_pref acc. set_update acc (books_by_preference user_pref)) user_prefs s) =
     set s \<union> (\<Union>u \<in> set user_prefs. set (books_by_preference u))"
  by (induction user_prefs arbitrary: s) (auto simp: set_update_set)

lemma get_all_book_titles_set:
  "set (get_all_book_titles user_prefs) = (\<Union>u \<in> set user_prefs. set (books_by_preference u))"
  by (simp add: get_all_book_titles_def get_all_book_titles_fold_set)

lemma get_all_book_titles_fold_distinct:
  "distinct s \<Longrightarrow>
   distinct (fold (\<lambda>user_pref acc. set_update acc (books_by_preference user_pref)) user_prefs s)"
  by (induction user_prefs arbitrary: s) (auto simp: set_update_distinct)

lemma get_all_book_titles_distinct: "distinct (get_all_book_titles user_prefs)"
  by (simp add: get_all_book_titles_def get_all_book_titles_fold_distinct)

lemma find_Some_exists: "\<exists>x \<in> set xs. P x \<Longrightarrow> \<exists>y. find P xs = Some y"
  by (induction xs) auto

lemma from_books_and_user_prefs_ok:
  assumes u: "u \<in> set user_prefs" and b: "b \<in> set bks" "b \<in> set (books_by_preference u)"
  shows "\<exists>s. from_books_and_user_prefs bks user_prefs = Inr s
     \<and> 1 \<le> length (rank_pairs (book_to_user_pref s))
     \<and> (\<forall>p \<in> set (rank_pairs (book_to_user_pref s)).
           fst p \<in> set (books_by_preference (snd p))
           \<and> get_rank_of_book (snd p) (fst p) = Inr (pair_rank p))"
proof -
  from assign_users_empty_supporters [of bks user_prefs] obtain d where
    run: "assign_users bks user_prefs (empty_supporters bks) = Inr d"
    and dist: "distinct (map fst d)" and keys: "fst ` set d = set bks"
    and vals: "\<forall>b \<in> set bks. map_of d b = Some (supporters_of bks user_prefs b)"
    by blast
  have mem: "\<forall>p \<in> set (rank_pairs d). fst p \<in> set (books_by_preference (snd p))"
  proof
    fix p assume "p \<in> set (rank_pairs d)"
    then have "(fst p, snd p) \<in> set (rank_pairs d)" by simp
    then obtain us where e: "(fst p, us) \<in> set d" and m: "snd p \<in> set us"
      unfolding rank_pairs_member by blast
    from assigned_entry [OF run e] m
    have "first_in_combo bks (snd p) = Some (fst p)"
      by (simp add: supporters_of_member)
    then show "fst p \<in> set (books_by_preference (snd p))"
      using first_in_combo_Some by blast
  qed
  obtain b' where f: "first_in_combo bks u = Some b'"
    using find_Some_exists [of "books_by_preference u" "\<lambda>t. t \<in> set bks"] b
    by (auto simp: first_in_combo_def)
  then have b': "b' \<in> set bks" using first_in_combo_Some by blast
  have "u \<in> set (supporters_of bks user_prefs b')"
    using u f by (simp add: supporters_of_member)
  moreover have "(b', supporters_of bks user_prefs b') \<in> set d"
    using vals b' by (simp add: map_of_SomeD)
  ultimately have "(b', u) \<in> set (rank_pairs d)"
    unfolding rank_pairs_member by blast
  then have ne: "rank_pairs d \<noteq> []" by auto
  from post_init_ok [OF ne mem, of bks] obtain s where
    s: "post_init bks d = Inr s" by blast
  have d: "book_to_user_pref s = d" using post_init_fields [OF s] by simp
  have "from_books_and_user_prefs bks user_prefs = Inr s"
    using run s by (simp add: from_books_and_user_prefs_def)
  moreover have "1 \<le> length (rank_pairs (book_to_user_pref s))"
    using ne d by (cases "rank_pairs d") auto
  moreover have "\<forall>p \<in> set (rank_pairs (book_to_user_pref s)).
           fst p \<in> set (books_by_preference (snd p))
           \<and> get_rank_of_book (snd p) (fst p) = Inr (pair_rank p)"
    using mem d by (simp add: get_rank_of_book_position pair_rank_def)
  ultimately show ?thesis by blast
qed

lemma generate_combo_summaries_ok:
  "\<forall>c \<in> set cs. \<exists>s. from_books_and_user_prefs c user_prefs = Inr s \<Longrightarrow>
   \<exists>ss. generate_combo_summaries user_prefs cs = Inr ss \<and> map books ss = cs"
proof (induction cs)
  case Nil
  then show ?case by simp
next
  case (Cons c cs)
  then obtain s where s: "from_books_and_user_prefs c user_prefs = Inr s" by auto
  then have b: "books s = c" using from_books_and_user_prefs_InrD by blast
  from Cons obtain ss where
    "generate_combo_summaries user_prefs cs = Inr ss" and "map books ss = cs" by auto
  with s b show ?case by simp
qed

text \<open>
  C10. Let the title universe be derived from the records, in any iteration order. Then
  every combination that the generator produces is scored without an exception: the
  summary has at least one (book, supporter) pair, so no division by zero, and every
  supporter of a book has that book in its list, so the rank lookup returns the rank and
  never raises. Hence \<open>generate_combo_summaries\<close> returns one summary per combination.
\<close>

theorem pipeline_scoring_never_raises:
  assumes "set titles = set (get_all_book_titles user_prefs)"
  shows "(\<forall>c \<in> set (combinations_for_all_book_counts titles).
           \<exists>s. from_books_and_user_prefs c user_prefs = Inr s
             \<and> 1 \<le> length (rank_pairs (book_to_user_pref s))
             \<and> (\<forall>p \<in> set (rank_pairs (book_to_user_pref s)).
                   fst p \<in> set (books_by_preference (snd p))
                   \<and> get_rank_of_book (snd p) (fst p) = Inr (pair_rank p)))
    \<and> (\<exists>ss. generate_combo_summaries user_prefs (combinations_for_all_book_counts titles) = Inr ss
           \<and> map books ss = combinations_for_all_book_counts titles)"
proof -
  have each: "\<forall>c \<in> set (combinations_for_all_book_counts titles).
           \<exists>s. from_books_and_user_prefs c user_prefs = Inr s
             \<and> 1 \<le> length (rank_pairs (book_to_user_pref s))
             \<and> (\<forall>p \<in> set (rank_pairs (book_to_user_pref s)).
                   fst p \<in> set (books_by_preference (snd p))
                   \<and> get_rank_of_book (snd p) (fst p) = Inr (pair_rank p))"
  proof
    fix c assume "c \<in> set (combinations_for_all_book_counts titles)"
    then have sub: "c \<in> set (subseqs titles)" and ne: "c \<noteq> []"
      by (auto simp: combinations_for_all_book_counts_set)
    from ne obtain b where b: "b \<in> set c" by (cases c) auto
    have "set c \<subseteq> set titles"
      using sub subseqs_powset [of titles] by blast
    with b assms have "b \<in> (\<Union>u \<in> set user_prefs. set (books_by_preference u))"
      by (auto simp: get_all_book_titles_set)
    then obtain u where "u \<in> set user_prefs" and "b \<in> set (books_by_preference u)" by blast
    from from_books_and_user_prefs_ok [OF this(1) b this(2)]
    show "\<exists>s. from_books_and_user_prefs c user_prefs = Inr s
             \<and> 1 \<le> length (rank_pairs (book_to_user_pref s))
             \<and> (\<forall>p \<in> set (rank_pairs (book_to_user_pref s)).
                   fst p \<in> set (books_by_preference (snd p))
                   \<and> get_rank_of_book (snd p) (fst p) = Inr (pair_rank p))" .
  qed
  then have "\<forall>c \<in> set (combinations_for_all_book_counts titles).
      \<exists>s. from_books_and_user_prefs c user_prefs = Inr s" by blast
  from generate_combo_summaries_ok [OF this] each show ?thesis by blast
qed

theorem pipeline_scoring_never_raises_witness:
  "set [''A'', ''B'', ''C''] = set (get_all_book_titles [ann, bob, cyd])
   \<and> [''B'', ''C''] \<in> set (combinations_for_all_book_counts [''A'', ''B'', ''C''])
   \<and> (\<exists>s. from_books_and_user_prefs [''B'', ''C''] [ann, bob, cyd] = Inr s
         \<and> 1 \<le> length (rank_pairs (book_to_user_pref s)))
   \<and> (\<exists>ss. generate_combo_summaries [ann, bob, cyd]
               (combinations_for_all_book_counts [''A'', ''B'', ''C'']) = Inr ss)"
proof -
  have h: "set [''A'', ''B'', ''C''] = set (get_all_book_titles [ann, bob, cyd])"
    by (simp add: get_all_book_titles_def set_update_def set_add_def ann_def bob_def cyd_def)
  have m: "[''B'', ''C''] \<in> set (combinations_for_all_book_counts [''A'', ''B'', ''C''])"
    by (simp add: combinations_for_all_book_counts_def set_of_def set_update_def set_add_def
        upt_rec numeral_2_eq_2 numeral_3_eq_3)
  note t = pipeline_scoring_never_raises [OF h]
  from t [THEN conjunct1, rule_format, OF m] t [THEN conjunct2] h m
  show ?thesis by blast
qed

subsection \<open>The quorum filter\<close>

lemma summary_A_built: "from_books_and_user_prefs [''A''] [ann, bob, cyd] = Inr summary_A"
  by (simp add: from_books_and_user_prefs_def empty_supporters_def post_init_def
      get_rank_of_book_def ann_def bob_def cyd_def summary_A_def)

lemma summary_AB_built:
  "from_books_and_user_prefs [''A'', ''B''] [ann, bob, cyd] = Inr summary_AB"
  by (simp add: from_books_and_user_prefs_def empty_supporters_def post_init_def
      get_rank_of_book_def ann_def bob_def cyd_def summary_AB_def)

lemma from_books_and_user_prefs_well_formed:
  assumes "from_books_and_user_prefs bks user_prefs = Inr s"
  shows "well_formed_summary s"
proof -
  from from_books_and_user_prefs_InrD [OF assms]
  have run: "assign_users bks user_prefs (empty_supporters bks) = Inr (book_to_user_pref s)"
    and b: "books s = bks" by auto
  from assign_users_empty_supporters [of bks user_prefs] run b
  show ?thesis by (auto simp: well_formed_summary_def)
qed

lemma filter_loop_eq:
  "filter_loop ss n valid =
     (valid @ filter (\<lambda>s. \<forall>us \<in> set (map snd (book_to_user_pref s)). MIN_GROUP_SIZE \<le> int (length us)) ss,
      n + int (length (filter (\<lambda>s. \<not> (\<forall>us \<in> set (map snd (book_to_user_pref s)). MIN_GROUP_SIZE \<le> int (length us))) ss)))"
  by (induction ss arbitrary: n valid) (auto simp: list_all_iff)

lemma has_quorum_values:
  assumes "well_formed_summary s"
  shows "has_quorum s \<longleftrightarrow>
     (\<forall>us \<in> set (map snd (book_to_user_pref s)). MIN_GROUP_SIZE \<le> int (length us))"
proof
  assume q: "has_quorum s"
  show "\<forall>us \<in> set (map snd (book_to_user_pref s)). MIN_GROUP_SIZE \<le> int (length us)"
  proof
    fix us assume "us \<in> set (map snd (book_to_user_pref s))"
    then obtain b where e: "(b, us) \<in> set (book_to_user_pref s)" by auto
    then have "b \<in> set (books s)" using assms by (force simp: well_formed_summary_def)
    moreover have "map_of (book_to_user_pref s) b = Some us"
      using e assms by (simp add: well_formed_summary_def)
    ultimately show "MIN_GROUP_SIZE \<le> int (length us)" using q by (auto simp: has_quorum_def)
  qed
next
  assume v: "\<forall>us \<in> set (map snd (book_to_user_pref s)). MIN_GROUP_SIZE \<le> int (length us)"
  show "has_quorum s"
    unfolding has_quorum_def
  proof
    fix b assume "b \<in> set (books s)"
    then have "b \<in> fst ` set (book_to_user_pref s)" using assms by (simp add: well_formed_summary_def)
    then obtain us where e: "(b, us) \<in> set (book_to_user_pref s)" by auto
    then have "map_of (book_to_user_pref s) b = Some us"
      using assms by (simp add: well_formed_summary_def)
    moreover have "us \<in> set (map snd (book_to_user_pref s))" using e by force
    ultimately show "\<exists>us. map_of (book_to_user_pref s) b = Some us \<and> MIN_GROUP_SIZE \<le> int (length us)"
      using v by blast
  qed
qed

text \<open>
  C4. The configured minimum is 3. For well-formed summaries, the filter returns exactly
  the summaries in which every book of the combo has at least the minimum number of
  supporters, in their input order, and the count it prints is the number of input
  summaries that are not returned.
\<close>

theorem filter_invalid_summaries_quorum:
  assumes "\<forall>s \<in> set combo_summaries. well_formed_summary s"
  shows "MIN_GROUP_SIZE = 3
    \<and> fst (filter_invalid_summaries combo_summaries) = filter has_quorum combo_summaries
    \<and> snd (filter_invalid_summaries combo_summaries) =
        int (length (filter (\<lambda>s. \<not> has_quorum s) combo_summaries))
    \<and> snd (filter_invalid_summaries combo_summaries) =
        int (length combo_summaries) - int (length (fst (filter_invalid_summaries combo_summaries)))"
proof -
  let ?P = "\<lambda>s. \<forall>us \<in> set (map snd (book_to_user_pref s)). MIN_GROUP_SIZE \<le> int (length us)"
  have f: "filter ?P combo_summaries = filter has_quorum combo_summaries"
    using assms by (intro filter_cong) (auto simp: has_quorum_values)
  have g: "filter (\<lambda>s. \<not> ?P s) combo_summaries = filter (\<lambda>s. \<not> has_quorum s) combo_summaries"
    using assms by (intro filter_cong) (auto simp: has_quorum_values)
  have fst: "fst (filter_invalid_summaries combo_summaries) = filter has_quorum combo_summaries"
    unfolding filter_invalid_summaries_def filter_loop_eq using f by simp
  have snd: "snd (filter_invalid_summaries combo_summaries) =
        int (length (filter (\<lambda>s. \<not> has_quorum s) combo_summaries))"
    unfolding filter_invalid_summaries_def filter_loop_eq using g by simp
  have "length (filter has_quorum combo_summaries)
      + length (filter (\<lambda>s. \<not> has_quorum s) combo_summaries) = length combo_summaries"
    by (rule sum_length_filter_compl)
  then show ?thesis using fst snd by (simp add: MIN_GROUP_SIZE_def)
qed

theorem filter_invalid_summaries_quorum_witness:
  "well_formed_summary summary_AB \<and> well_formed_summary summary_A
   \<and> has_quorum summary_A \<and> \<not> has_quorum summary_AB
   \<and> filter_invalid_summaries [summary_AB, summary_A, summary_AB] = ([summary_A], 2)"
proof -
  have h: "\<forall>s \<in> set [summary_AB, summary_A, summary_AB]. well_formed_summary s"
    by (simp add: well_formed_summary_def summary_A_def summary_AB_def)
  have a: "has_quorum summary_A"
    by (simp add: has_quorum_def summary_A_def MIN_GROUP_SIZE_def)
  have b: "\<not> has_quorum summary_AB"
    by (simp add: has_quorum_def summary_AB_def MIN_GROUP_SIZE_def)
  from filter_invalid_summaries_quorum [OF h] a b
  have "fst (filter_invalid_summaries [summary_AB, summary_A, summary_AB]) = [summary_A]"
    and "snd (filter_invalid_summaries [summary_AB, summary_A, summary_AB]) = 2"
    by simp_all
  then have "filter_invalid_summaries [summary_AB, summary_A, summary_AB] = ([summary_A], 2)"
    by (metis prod.collapse)
  with h a b show ?thesis by simp
qed

subsection \<open>The ranking\<close>

text \<open>
  C5. The sorted list is a permutation of the retained summaries; along it the key
  (quadratic mean, number of books) never decreases in the lexicographic order; and the
  summaries with one and the same key appear in the order they had in the input.
\<close>

theorem sorted_combo_summaries_stable_ascending:
  "mset (sorted_combo_summaries valid) = mset valid
   \<and> (\<forall>i j. i < j \<and> j < length valid \<longrightarrow>
         root_mean_square (sorted_combo_summaries valid ! i)
           < root_mean_square (sorted_combo_summaries valid ! j)
         \<or> (root_mean_square (sorted_combo_summaries valid ! i)
              = root_mean_square (sorted_combo_summaries valid ! j)
            \<and> length (books (sorted_combo_summaries valid ! i))
                \<le> length (books (sorted_combo_summaries valid ! j))))
   \<and> (\<forall>q n. filter (\<lambda>x. root_mean_square x = q \<and> length (books x) = n)
                (sorted_combo_summaries valid)
            = filter (\<lambda>x. root_mean_square x = q \<and> length (books x) = n) valid)"
proof (intro conjI allI impI)
  show "mset (sorted_combo_summaries valid) = mset valid"
    by (simp add: sorted_combo_summaries_def)
next
  fix i j
  assume ij: "i < j \<and> j < length valid"
  let ?out = "sorted_combo_summaries valid"
  have len: "length ?out = length valid" by (simp add: sorted_combo_summaries_def)
  have "sorted (map sort_key_of ?out)" by (simp add: sorted_combo_summaries_def)
  then have "map sort_key_of ?out ! i \<le> map sort_key_of ?out ! j"
    using ij len by (intro sorted_nth_mono) auto
  then have "sort_key_of (?out ! i) \<le> sort_key_of (?out ! j)"
    using ij len by simp
  then show "root_mean_square (?out ! i) < root_mean_square (?out ! j)
         \<or> (root_mean_square (?out ! i) = root_mean_square (?out ! j)
            \<and> length (books (?out ! i)) \<le> length (books (?out ! j)))"
    by (auto simp: sort_key_of_def less_eq_prod_def)
next
  fix q n
  have "\<And>x. (root_mean_square x = q \<and> length (books x) = n) = (sort_key_of x = (q, int n))"
    by (auto simp: sort_key_of_def)
  then show "filter (\<lambda>x. root_mean_square x = q \<and> length (books x) = n)
                (sorted_combo_summaries valid)
            = filter (\<lambda>x. root_mean_square x = q \<and> length (books x) = n) valid"
    by (simp add: sorted_combo_summaries_def sort_key_stable)
qed

theorem sorted_combo_summaries_stable_ascending_witness:
  "sorted_combo_summaries [summary_A, summary_AB, summary_A] = [summary_AB, summary_A, summary_A]
   \<and> (0::nat) < 1 \<and> (1::nat) < length [summary_A, summary_AB, summary_A]
   \<and> root_mean_square summary_AB < root_mean_square summary_A"
proof -
  have lt: "(1::real) < 2 powr (1 / 2)"
    using powr_less_mono [of 0 "1 / 2" 2] by simp
  have k: "sort_key_of summary_AB < sort_key_of summary_A"
    using lt by (simp add: sort_key_of_def summary_A_def summary_AB_def less_prod_def)
  have v: "sorted_combo_summaries [summary_A, summary_AB, summary_A] =
      [summary_AB, summary_A, summary_A]"
    using k by (simp add: sorted_combo_summaries_def insort_key.simps not_le less_imp_le)
  have h: "(0::nat) < 1 \<and> 1 < length [summary_A, summary_AB, summary_A]" by simp
  from sorted_combo_summaries_stable_ascending
    [of "[summary_A, summary_AB, summary_A]", THEN conjunct2, THEN conjunct1,
     rule_format, OF h]
  have "root_mean_square summary_AB < root_mean_square summary_A
     \<or> (root_mean_square summary_AB = root_mean_square summary_A
        \<and> length (books summary_AB) \<le> length (books summary_A))"
    unfolding v by simp
  moreover have "\<not> length (books summary_AB) \<le> length (books summary_A)"
    by (simp add: summary_A_def summary_AB_def)
  ultimately show ?thesis using v h by blast
qed

subsection \<open>The loader\<close>

lemma str_split_nonempty: "str_split sep s \<noteq> []"
  by (induction s) (auto split: list.splits)

lemma str_split_length: "length (str_split sep s) = count_list s sep + 1"
  by (induction s) (auto split: list.splits simp: str_split_nonempty)

lemma str_split_no_sep: "t \<in> set (str_split sep s) \<Longrightarrow> sep \<notin> set t"
  by (induction s arbitrary: t) (auto split: if_splits list.splits)

lemma str_join_split: "str_join sep (str_split sep s) = s"
proof (induction s)
  case Nil
  then show ?case by simp
next
  case (Cons c cs)
  obtain t ts where sp: "str_split sep cs = t # ts"
    using str_split_nonempty [of sep cs] by (cases "str_split sep cs") auto
  show ?case
  proof (cases "c = sep")
    case True
    with Cons sp show ?thesis by simp
  next
    case False
    with Cons sp show ?thesis by (cases ts) auto
  qed
qed

lemma str_strip_spec:
  "\<exists>pre suf. s = pre @ str_strip s @ suf
     \<and> (\<forall>c \<in> set pre. isspace c) \<and> (\<forall>c \<in> set suf. isspace c)
     \<and> (str_strip s \<noteq> [] \<longrightarrow> \<not> isspace (hd (str_strip s)) \<and> \<not> isspace (last (str_strip s)))"
proof -
  let ?m = "dropWhile isspace s"
  let ?pre = "takeWhile isspace s"
  let ?suf = "rev (takeWhile isspace (rev ?m))"
  have a: "s = ?pre @ ?m" by simp
  have b: "?m = str_strip s @ ?suf"
    unfolding str_strip_def by (metis rev_append rev_rev_ident takeWhile_dropWhile_id)
  have c: "s = ?pre @ str_strip s @ ?suf" using a b by metis
  have p: "\<forall>c \<in> set ?pre. isspace c" by (auto dest: set_takeWhileD)
  have q: "\<forall>c \<in> set ?suf. isspace c" by (auto dest: set_takeWhileD)
  have r: "str_strip s \<noteq> [] \<longrightarrow> \<not> isspace (hd (str_strip s)) \<and> \<not> isspace (last (str_strip s))"
  proof
    assume ne: "str_strip s \<noteq> []"
    then have ne2: "dropWhile isspace (rev ?m) \<noteq> []" by (simp add: str_strip_def)
    then have l: "\<not> isspace (hd (dropWhile isspace (rev ?m)))" by (rule hd_dropWhile)
    have "last (str_strip s) = hd (dropWhile isspace (rev ?m))"
      using ne2 by (simp add: str_strip_def last_rev)
    with l have last: "\<not> isspace (last (str_strip s))" by simp
    have mne: "?m \<noteq> []" using b ne by (metis Nil_is_append_conv)
    then have "\<not> isspace (hd ?m)" by (rule hd_dropWhile)
    moreover have "hd ?m = hd (str_strip s)" using b ne by (metis hd_append2)
    ultimately show "\<not> isspace (hd (str_strip s)) \<and> \<not> isspace (last (str_strip s))"
      using last by simp
  qed
  from c p q r show ?thesis by blast
qed

lemma from_csv_row_ok:
  "BOOK_PREFS_COLUMN_IDX < length row \<Longrightarrow>
   from_csv_row row =
     Inr \<lparr>first_name = row ! FIRST_NAME_COLUMN_IDX, last_name = row ! LAST_NAME_COLUMN_IDX,
          books_by_preference =
            map str_strip (str_split CHR '','' (row ! BOOK_PREFS_COLUMN_IDX))\<rparr>"
  by (simp add: from_csv_row_def getitem_def BOOK_PREFS_COLUMN_IDX_def
      FIRST_NAME_COLUMN_IDX_def LAST_NAME_COLUMN_IDX_def)

lemma from_csv_row_short:
  "\<not> BOOK_PREFS_COLUMN_IDX < length row \<Longrightarrow> from_csv_row row = Inl IndexError"
  by (simp add: from_csv_row_def getitem_def)

lemma load_rows_ok:
  "\<forall>row \<in> set rows. BOOK_PREFS_COLUMN_IDX < length row \<Longrightarrow>
   load_rows rows =
     Inr (map (\<lambda>row. \<lparr>first_name = row ! FIRST_NAME_COLUMN_IDX,
                      last_name = row ! LAST_NAME_COLUMN_IDX,
                      books_by_preference =
                        map str_strip (str_split CHR '','' (row ! BOOK_PREFS_COLUMN_IDX))\<rparr>)
            rows)"
  by (induction rows) (auto simp: from_csv_row_ok)

lemma distinct_map_pairwise:
  "distinct (map f xs) \<longleftrightarrow>
     (\<forall>i j. i < j \<and> j < length xs \<longrightarrow> f (xs ! i) \<noteq> f (xs ! j))"
proof
  assume d: "distinct (map f xs)"
  show "\<forall>i j. i < j \<and> j < length xs \<longrightarrow> f (xs ! i) \<noteq> f (xs ! j)"
  proof (intro allI impI)
    fix i j
    assume ij: "i < j \<and> j < length xs"
    then have "i < length (map f xs)" and "j < length (map f xs)" and "i \<noteq> j" by auto
    with d have "map f xs ! i \<noteq> map f xs ! j" by (simp add: distinct_conv_nth)
    with ij show "f (xs ! i) \<noteq> f (xs ! j)" by simp
  qed
next
  assume p: "\<forall>i j. i < j \<and> j < length xs \<longrightarrow> f (xs ! i) \<noteq> f (xs ! j)"
  show "distinct (map f xs)"
    unfolding distinct_conv_nth
  proof (intro allI impI)
    fix i j
    assume i: "i < length (map f xs)" and j: "j < length (map f xs)" and ne: "i \<noteq> j"
    from ne consider (lt) "i < j" | (gt) "j < i" by linarith
    then show "map f xs ! i \<noteq> map f xs ! j"
    proof cases
      case lt
      with p j have "f (xs ! i) \<noteq> f (xs ! j)" by simp
      with i j show ?thesis by simp
    next
      case gt
      with p i have "f (xs ! j) \<noteq> f (xs ! i)" by simp
      with i j show ?thesis by simp
    qed
  qed
qed

text \<open>
  C8. When a header row is followed by \<open>N\<close> data rows that all have the preference
  column, the loader returns \<open>N\<close> records, the \<open>i\<close>-th made from the \<open>i\<close>-th data row:
  its names are the two name cells, and its preference list is the preference cell split
  on commas with every piece stripped, empty pieces kept, so its length is the number of
  commas in the cell plus one.
\<close>

theorem load_csv_rows:
  assumes "\<forall>row \<in> set rows. BOOK_PREFS_COLUMN_IDX < length row"
  shows "\<exists>user_prefs. load_csv (header # rows) = Inr user_prefs
    \<and> length user_prefs = length rows
    \<and> (\<forall>i < length rows.
          first_name (user_prefs ! i) = rows ! i ! FIRST_NAME_COLUMN_IDX
          \<and> last_name (user_prefs ! i) = rows ! i ! LAST_NAME_COLUMN_IDX
          \<and> books_by_preference (user_prefs ! i) =
              map str_strip (str_split CHR '','' (rows ! i ! BOOK_PREFS_COLUMN_IDX))
          \<and> length (books_by_preference (user_prefs ! i)) =
              count_list (rows ! i ! BOOK_PREFS_COLUMN_IDX) CHR '','' + 1)"
  using load_rows_ok [OF assms] by (simp add: load_csv_def str_split_length)

theorem load_csv_rows_witness:
  "BOOK_PREFS_COLUMN_IDX
     < length [''t'', ''e'', ''x'', ''Ann'', ''Lee'', ''y'', ''Dune, Emma ,,Ulysses,'']
   \<and> BOOK_PREFS_COLUMN_IDX < length [''t'', ''e'', ''x'', ''Bob'', ''Ray'', ''y'', '''']
   \<and> load_csv [[''Timestamp''],
               [''t'', ''e'', ''x'', ''Ann'', ''Lee'', ''y'', ''Dune, Emma ,,Ulysses,''],
               [''t'', ''e'', ''x'', ''Bob'', ''Ray'', ''y'', '''']] =
       Inr [\<lparr>first_name = ''Ann'', last_name = ''Lee'',
              books_by_preference = [''Dune'', ''Emma'', '''', ''Ulysses'', '''']\<rparr>,
            \<lparr>first_name = ''Bob'', last_name = ''Ray'', books_by_preference = ['''']\<rparr>]
   \<and> count_list ''Dune, Emma ,,Ulysses,'' CHR '','' + 1 = 5"
proof -
  let ?rows = "[[''t'', ''e'', ''x'', ''Ann'', ''Lee'', ''y'', ''Dune, Emma ,,Ulysses,''],
                [''t'', ''e'', ''x'', ''Bob'', ''Ray'', ''y'', '''']]"
  have h: "\<forall>row \<in> set ?rows. BOOK_PREFS_COLUMN_IDX < length row"
    by (simp add: BOOK_PREFS_COLUMN_IDX_def)
  from load_csv_rows [OF h, of "[''Timestamp'']"] obtain user_prefs where
    l: "load_csv ([''Timestamp''] # ?rows) = Inr user_prefs"
    and n: "length user_prefs = length ?rows"
    and e: "\<forall>i < length ?rows.
          first_name (user_prefs ! i) = ?rows ! i ! FIRST_NAME_COLUMN_IDX
          \<and> last_name (user_prefs ! i) = ?rows ! i ! LAST_NAME_COLUMN_IDX
          \<and> books_by_preference (user_prefs ! i) =
              map str_strip (str_split CHR '','' (?rows ! i ! BOOK_PREFS_COLUMN_IDX))
          \<and> length (books_by_preference (user_prefs ! i)) =
              count_list (?rows ! i ! BOOK_PREFS_COLUMN_IDX) CHR '','' + 1"
    by blast
  have v: "load_csv ([''Timestamp''] # ?rows) =
       Inr [\<lparr>first_name = ''Ann'', last_name = ''Lee'',
              books_by_preference = [''Dune'', ''Emma'', '''', ''Ulysses'', '''']\<rparr>,
            \<lparr>first_name = ''Bob'', last_name = ''Ray'', books_by_preference = ['''']\<rparr>]"
    by (simp add: load_csv_def from_csv_row_def getitem_def BOOK_PREFS_COLUMN_IDX_def
        FIRST_NAME_COLUMN_IDX_def LAST_NAME_COLUMN_IDX_def str_strip_def isspace_def)
  have z: "0 < length ?rows" by simp
  have "length (books_by_preference (user_prefs ! 0)) =
      count_list (?rows ! 0 ! BOOK_PREFS_COLUMN_IDX) CHR '','' + 1"
    using e [rule_format, OF z] by blast
  then have "count_list ''Dune, Emma ,,Ulysses,'' CHR '','' + 1 = 5"
    using l v by (simp add: BOOK_PREFS_COLUMN_IDX_def)
  with h v show ?thesis by simp
qed

text \<open>
  C9, as stated, fails: the loader keeps repeated titles. The row whose preference cell
  is \<open>Dune, Emma,Dune\<close> gives the list \<open>[Dune, Emma, Dune]\<close>.
\<close>

theorem from_csv_row_duplicates_counterexample:
  "from_csv_row [''t'', ''e'', ''x'', ''Ann'', ''Lee'', ''y'', ''Dune, Emma,Dune''] =
     Inr \<lparr>first_name = ''Ann'', last_name = ''Lee'',
          books_by_preference = [''Dune'', ''Emma'', ''Dune'']\<rparr>
   \<and> \<not> distinct [''Dune'', ''Emma'', ''Dune'']"
  by (simp add: from_csv_row_def getitem_def BOOK_PREFS_COLUMN_IDX_def
      FIRST_NAME_COLUMN_IDX_def LAST_NAME_COLUMN_IDX_def str_strip_def isspace_def)

text \<open>
  C9, amended. The loader does not remove duplicates: for a row that has the preference
  column, the ranked list of the record has no duplicate titles exactly when the stripped
  comma-separated pieces of the preference cell are pairwise different.
\<close>

theorem from_csv_row_distinct_iff:
  assumes "BOOK_PREFS_COLUMN_IDX < length row"
  shows "\<exists>r. from_csv_row row = Inr r
    \<and> (distinct (books_by_preference r) \<longleftrightarrow>
         (\<forall>i j. i < j \<and> j < length (str_split CHR '','' (row ! BOOK_PREFS_COLUMN_IDX)) \<longrightarrow>
            str_strip (str_split CHR '','' (row ! BOOK_PREFS_COLUMN_IDX) ! i)
              \<noteq> str_strip (str_split CHR '','' (row ! BOOK_PREFS_COLUMN_IDX) ! j)))"
  using from_csv_row_ok [OF assms]
    distinct_map_pairwise [of str_strip "str_split CHR '','' (row ! BOOK_PREFS_COLUMN_IDX)"]
  by simp

theorem from_csv_row_distinct_iff_witness:
  "BOOK_PREFS_COLUMN_IDX < length [''t'', ''e'', ''x'', ''Bob'', ''Ray'', ''y'', ''Dune , Emma'']
   \<and> from_csv_row [''t'', ''e'', ''x'', ''Bob'', ''Ray'', ''y'', ''Dune , Emma''] =
       Inr \<lparr>first_name = ''Bob'', last_name = ''Ray'',
            books_by_preference = [''Dune'', ''Emma'']\<rparr>
   \<and> distinct [''Dune'', ''Emma'']
   \<and> length (str_split CHR '','' ''Dune , Emma'') = 2
   \<and> str_strip (str_split CHR '','' ''Dune , Emma'' ! 0)
       \<noteq> str_strip (str_split CHR '','' ''Dune , Emma'' ! 1)"
proof -
  let ?row = "[''t'', ''e'', ''x'', ''Bob'', ''Ray'', ''y'', ''Dune , Emma'']"
  have h: "BOOK_PREFS_COLUMN_IDX < length ?row" by (simp add: BOOK_PREFS_COLUMN_IDX_def)
  have v: "from_csv_row ?row =
       Inr \<lparr>first_name = ''Bob'', last_name = ''Ray'',
            books_by_preference = [''Dune'', ''Emma'']\<rparr>"
    by (simp add: from_csv_row_def getitem_def BOOK_PREFS_COLUMN_IDX_def
      FIRST_NAME_COLUMN_IDX_def LAST_NAME_COLUMN_IDX_def str_strip_def isspace_def)
  have c: "?row ! BOOK_PREFS_COLUMN_IDX = ''Dune , Emma''"
    by (simp add: BOOK_PREFS_COLUMN_IDX_def)
  from from_csv_row_distinct_iff [OF h] v
  have "distinct [''Dune'', ''Emma''] \<longleftrightarrow>
      (\<forall>i j. i < j \<and> j < length (str_split CHR '','' (?row ! BOOK_PREFS_COLUMN_IDX)) \<longrightarrow>
          str_strip (str_split CHR '','' (?row ! BOOK_PREFS_COLUMN_IDX) ! i)
            \<noteq> str_strip (str_split CHR '','' (?row ! BOOK_PREFS_COLUMN_IDX) ! j))"
    by auto
  then have a: "\<forall>i j. i < j \<and> j < length (str_split CHR '','' ''Dune , Emma'') \<longrightarrow>
          str_strip (str_split CHR '','' ''Dune , Emma'' ! i)
            \<noteq> str_strip (str_split CHR '','' ''Dune , Emma'' ! j)"
    unfolding c by simp
  have n: "length (str_split CHR '','' ''Dune , Emma'') = 2" by simp
  have "(0::nat) < 1 \<and> 1 < length (str_split CHR '','' ''Dune , Emma'')"
    unfolding n by simp
  from a [rule_format, OF this]
  have "str_strip (str_split CHR '','' ''Dune , Emma'' ! 0)
       \<noteq> str_strip (str_split CHR '','' ''Dune , Emma'' ! 1)" .
  with h v n show ?thesis by simp
qed

end
